theory Spec2Isabelle
  imports Complex_Main
begin


section \<open>Values, series and errors\<close>

text \<open>
  The repository computes a smoothed momentum curve from per-point tennis results
  (\<^verbatim>\<open>src/features/momentum.py\<close>) and detects swings on it
  (\<^verbatim>\<open>src/features/swings.py\<close>).

  A pandas \<^verbatim>\<open>Series\<close> of floats is a list of cells; a cell is \<open>None\<close> for
  NaN and \<open>Some x\<close> for a number. Arithmetic on numbers is exact (the reals): rounding
  of IEEE doubles is not part of this model. The index of a series is the default
  \<^verbatim>\<open>RangeIndex\<close> (the loader resets it), so a label is a position.
  Positions are Python ints, hence \<open>int\<close>, and \<^verbatim>\<open>iloc\<close> follows Python:
  a negative position counts from the end, and a position out of range raises.
\<close>

type_synonym pyfloat = "real option"
type_synonym series = "pyfloat list"

datatype error = KeyError string | ValueError string | IndexError

text \<open>Comparisons of floats: every comparison with NaN is false.\<close>

definition fgt :: "pyfloat \<Rightarrow> pyfloat \<Rightarrow> bool" where
  "fgt a b = (case a of None \<Rightarrow> False | Some x \<Rightarrow> (case b of None \<Rightarrow> False | Some y \<Rightarrow> y < x))"

definition flt :: "pyfloat \<Rightarrow> pyfloat \<Rightarrow> bool" where
  "flt a b = (case a of None \<Rightarrow> False | Some x \<Rightarrow> (case b of None \<Rightarrow> False | Some y \<Rightarrow> x < y))"

definition fge :: "pyfloat \<Rightarrow> pyfloat \<Rightarrow> bool" where
  "fge a b = (case a of None \<Rightarrow> False | Some x \<Rightarrow> (case b of None \<Rightarrow> False | Some y \<Rightarrow> y \<le> x))"

definition fle :: "pyfloat \<Rightarrow> pyfloat \<Rightarrow> bool" where
  "fle a b = (case a of None \<Rightarrow> False | Some x \<Rightarrow> (case b of None \<Rightarrow> False | Some y \<Rightarrow> x \<le> y))"

definition fabs :: "pyfloat \<Rightarrow> pyfloat" where
  "fabs a = (case a of None \<Rightarrow> None | Some x \<Rightarrow> Some \<bar>x\<bar>)"

definition fsub :: "pyfloat \<Rightarrow> pyfloat \<Rightarrow> pyfloat" where
  "fsub a b = (case a of None \<Rightarrow> None | Some x \<Rightarrow> (case b of None \<Rightarrow> None | Some y \<Rightarrow> Some (x - y)))"

text \<open>The numbers of a series, NaN dropped, in order.\<close>

fun dropna :: "series \<Rightarrow> real list" where
  "dropna [] = []"
| "dropna (None # xs) = dropna xs"
| "dropna (Some x # xs) = x # dropna xs"

text \<open>\<^verbatim>\<open>s.isna().all()\<close>: true of the empty series too.\<close>

definition isna_all :: "series \<Rightarrow> bool" where
  "isna_all s = list_all (\<lambda>x. x = None) s"

text \<open>
  Python's positional index into a sequence of length \<open>n\<close>: \<open>None\<close> is IndexError.
\<close>

definition norm_index :: "nat \<Rightarrow> int \<Rightarrow> nat option" where
  "norm_index n p =
     (if 0 \<le> p \<and> p < int n then Some (nat p)
      else if - int n \<le> p \<and> p < 0 then Some (nat (int n + p))
      else None)"

text \<open>\<^verbatim>\<open>abs(m.iloc[p])\<close>\<close>

definition abs_iloc :: "series \<Rightarrow> int \<Rightarrow> error + pyfloat" where
  "abs_iloc m p = (case norm_index (length m) p of None \<Rightarrow> Inl IndexError | Some k \<Rightarrow> Inr (fabs (m ! k)))"

section \<open>The pandas operations the code calls\<close>

text \<open>
  \<^verbatim>\<open>s.rolling(window=w, min_periods=1).mean()\<close> at position \<open>i\<close>: the mean of the
  numbers among the last \<open>w\<close> cells up to \<open>i\<close> (fewer at the start), NaN when there is
  none.
\<close>

definition rolling_mean_at :: "nat \<Rightarrow> series \<Rightarrow> nat \<Rightarrow> pyfloat" where
  "rolling_mean_at w s i =
     (let obs = dropna (drop (Suc i - w) (take (Suc i) s))
      in if obs = [] then None else Some (sum_list obs / real (length obs)))"

definition rolling_mean :: "int \<Rightarrow> series \<Rightarrow> error + series" where
  "rolling_mean window s =
     (if window < 0 then Inl (ValueError ''window must be an integer 0 or greater'')
      else if window < 1 then Inl (ValueError ''min_periods 1 must be <= window 0'')
      else Inr (map (rolling_mean_at (nat window) s) [0..<length s]))"

text \<open>
  \<^verbatim>\<open>s.ewm(span=span, adjust=False).mean()\<close>. pandas keeps the running value
  \<open>weighted\<close> and the weight \<open>old_wt\<close> of the history; a NaN cell ages the history
  without adding to it, and the first number seeds the running value.
\<close>

fun ewm_loop :: "real \<Rightarrow> pyfloat \<Rightarrow> real \<Rightarrow> series \<Rightarrow> series" where
  "ewm_loop alpha weighted old_wt [] = []"
| "ewm_loop alpha None old_wt (None # rest) = None # ewm_loop alpha None old_wt rest"
| "ewm_loop alpha None old_wt (Some c # rest) = Some c # ewm_loop alpha (Some c) old_wt rest"
| "ewm_loop alpha (Some w) old_wt (None # rest) =
     Some w # ewm_loop alpha (Some w) (old_wt * (1 - alpha)) rest"
| "ewm_loop alpha (Some w) old_wt (Some c # rest) =
     (let ow = old_wt * (1 - alpha);
          w' = (if w \<noteq> c then (ow * w + alpha * c) / (ow + alpha) else w)
      in Some w' # ewm_loop alpha (Some w') 1 rest)"

definition ewm_mean :: "int \<Rightarrow> series \<Rightarrow> error + series" where
  "ewm_mean span_n s =
     (if span_n < 1 then Inl (ValueError ''span must satisfy: span >= 1'')
      else let com = (real_of_int span_n - 1) / 2; alpha = 1 / (1 + com)
           in Inr (case s of [] \<Rightarrow> [] | v # rest \<Rightarrow> v # ewm_loop alpha v 1 rest))"

text \<open>\<^verbatim>\<open>s.diff()\<close>: NaN at position 0, then the difference to the previous cell.\<close>

fun diff_from :: "pyfloat \<Rightarrow> series \<Rightarrow> series" where
  "diff_from prev [] = []"
| "diff_from prev (x # xs) = fsub x prev # diff_from x xs"

definition diff :: "series \<Rightarrow> series" where
  "diff s = diff_from None s"

text \<open>\<^verbatim>\<open>s.shift(1)\<close>: NaN first, the last cell dropped.\<close>

definition shift1 :: "series \<Rightarrow> series" where
  "shift1 s = take (length s) (None # s)"

text \<open>\<^verbatim>\<open>s.replace(0, np.nan)\<close> and \<^verbatim>\<open>s.ffill()\<close>\<close>

definition replace_zero_nan :: "series \<Rightarrow> series" where
  "replace_zero_nan s = map (\<lambda>x. if x = Some 0 then None else x) s"

fun ffill_from :: "pyfloat \<Rightarrow> series \<Rightarrow> series" where
  "ffill_from lastv [] = []"
| "ffill_from lastv (None # xs) = lastv # ffill_from lastv xs"
| "ffill_from lastv (Some v # xs) = Some v # ffill_from (Some v) xs"

definition ffill :: "series \<Rightarrow> series" where
  "ffill s = ffill_from None s"

text \<open>
  \<^verbatim>\<open>s.quantile(q)\<close>, linear interpolation over the sorted numbers of the series
  (NaN dropped); NaN when there is no number.
\<close>

definition quantile :: "series \<Rightarrow> real \<Rightarrow> error + pyfloat" where
  "quantile s q =
     (if q < 0 \<or> 1 < q then Inl (ValueError ''percentiles should all be in the interval [0, 1]'')
      else let v = sort (dropna s); n = length v
           in if n = 0 then Inr None
              else let h = q * real (n - 1);
                       lo = nat \<lfloor>h\<rfloor>;
                       hi = min (lo + 1) (n - 1);
                       g = h - real lo
                   in Inr (Some (v ! lo + (v ! hi - v ! lo) * g)))"

section \<open>momentum.py\<close>

definition rolling_momentum :: "series \<Rightarrow> int \<Rightarrow> error + series" where
  "rolling_momentum point_result window = rolling_mean window point_result"

definition ewm_momentum :: "series \<Rightarrow> int \<Rightarrow> error + series" where
  "ewm_momentum s span_n = ewm_mean span_n s"

text \<open>A data frame, as far as the code reads it: its columns by name.\<close>

type_synonym dataframe = "string \<rightharpoonup> series"

definition missing_msg :: "string \<Rightarrow> string \<Rightarrow> string" where
  "missing_msg col method = ''Missing '' @ [CHR 0x27] @ col @ [CHR 0x27] @ '' for method='' @ method"

definition compute_momentum ::
  "dataframe \<Rightarrow> string \<Rightarrow> int \<Rightarrow> int \<Rightarrow> string \<Rightarrow> string \<Rightarrow> error + series" where
  "compute_momentum df_match method window span_n point_col serve_adj_col =
     (if method = ''rm'' then
        (case df_match point_col of
           None \<Rightarrow> Inl (KeyError (missing_msg point_col ''rm''))
         | Some s \<Rightarrow> rolling_momentum s window)
      else if method = ''ewm'' then
        (case df_match point_col of
           None \<Rightarrow> Inl (KeyError (missing_msg point_col ''ewm''))
         | Some s \<Rightarrow> ewm_momentum s span_n)
      else if method = ''srv_ewm'' then
        (case df_match serve_adj_col of
           None \<Rightarrow> Inl (KeyError (missing_msg serve_adj_col ''srv_ewm''))
         | Some s \<Rightarrow> ewm_momentum s span_n)
      else Inl (ValueError (''Unknown method: '' @ method)))"

section \<open>swings.py\<close>

record SwingParams =
  trend_span :: int
  amp_q :: real
  cool :: int
  fill_zero_trend :: bool

text \<open>
  \<^verbatim>\<open>max(group, key=lambda p: abs(m.iloc[p]))\<close>: the first element whose key no
  later element exceeds; a later element replaces the best only when its key is
  strictly greater.
\<close>

fun max_abs_from :: "series \<Rightarrow> int \<Rightarrow> pyfloat \<Rightarrow> int list \<Rightarrow> error + int" where
  "max_abs_from m best kbest [] = Inr best"
| "max_abs_from m best kbest (p # ps) =
     (case abs_iloc m p of
        Inl e \<Rightarrow> Inl e
      | Inr k \<Rightarrow> if fgt k kbest then max_abs_from m p k ps else max_abs_from m best kbest ps)"

definition max_abs :: "series \<Rightarrow> int list \<Rightarrow> error + int" where
  "max_abs m grp =
     (case grp of
        [] \<Rightarrow> Inl (ValueError ''max() arg is an empty sequence'')
      | p # ps \<Rightarrow> (case abs_iloc m p of Inl e \<Rightarrow> Inl e | Inr k \<Rightarrow> max_abs_from m p k ps))"

text \<open>The inner while loop of the compression: the last index of the run that starts at \<open>j\<close>.\<close>

function extend_run :: "int list \<Rightarrow> nat \<Rightarrow> nat" where
  "extend_run pos_idx j =
     (if j + 1 < length pos_idx \<and> pos_idx ! (j + 1) = pos_idx ! j + 1
      then extend_run pos_idx (j + 1) else j)"
  by pat_completeness auto
termination
  by (relation "measure (\<lambda>(pos_idx, j). length pos_idx - j)") auto

declare extend_run.simps [simp del]

lemma extend_run_step:
  "j + 1 < length pos_idx \<Longrightarrow> pos_idx ! (j + 1) = pos_idx ! j + 1 \<Longrightarrow>
   extend_run pos_idx j = extend_run pos_idx (j + 1)"
  by (subst extend_run.simps) simp

lemma extend_run_stop:
  "\<not> (j + 1 < length pos_idx \<and> pos_idx ! (j + 1) = pos_idx ! j + 1) \<Longrightarrow>
   extend_run pos_idx j = j"
  by (subst extend_run.simps) auto

lemma extend_run_ge: "j \<le> extend_run pos_idx j"
proof (induction pos_idx j rule: extend_run.induct)
  case (1 pos_idx j)
  show ?case
  proof (cases "j + 1 < length pos_idx \<and> pos_idx ! (j + 1) = pos_idx ! j + 1")
    case True
    with 1 have "j + 1 \<le> extend_run pos_idx (j + 1)" by simp
    with True show ?thesis by (simp add: extend_run_step)
  next
    case False
    then show ?thesis by (simp add: extend_run_stop)
  qed
qed

text \<open>The group the inner loop collects: \<^verbatim>\<open>pos_idx[i], ..., pos_idx[j]\<close>.\<close>

definition run_group :: "int list \<Rightarrow> nat \<Rightarrow> nat \<Rightarrow> int list" where
  "run_group pos_idx i j = map ((!) pos_idx) [i..<Suc j]"

text \<open>The outer while loop: one group per round, its best position appended to \<open>keep\<close>.\<close>

function compress_from :: "series \<Rightarrow> int list \<Rightarrow> nat \<Rightarrow> int list \<Rightarrow> error + int list" where
  "compress_from m pos_idx i keep =
     (if i < length pos_idx then
        (case max_abs m (run_group pos_idx i (extend_run pos_idx i)) of
           Inl e \<Rightarrow> Inl e
         | Inr best \<Rightarrow> compress_from m pos_idx (extend_run pos_idx i + 1) (keep @ [best]))
      else Inr keep)"
  by pat_completeness auto
termination
proof (relation "measure (\<lambda>(m, pos_idx, i, keep). length pos_idx - i)")
  show "wf (measure (\<lambda>(m, pos_idx, i, keep). length pos_idx - i))" by simp
next
  fix m :: series and pos_idx :: "int list" and i :: nat and keep :: "int list" and best :: int
  assume "i < length pos_idx"
  moreover have "i \<le> extend_run pos_idx i" by (rule extend_run_ge)
  ultimately show "((m, pos_idx, extend_run pos_idx i + 1, keep @ [best]), (m, pos_idx, i, keep))
      \<in> measure (\<lambda>(m, pos_idx, i, keep). length pos_idx - i)"
    by simp
qed

declare compress_from.simps [simp del]

definition compress_consecutive_by_max_abs :: "series \<Rightarrow> int list \<Rightarrow> error + int list" where
  "compress_consecutive_by_max_abs m pos_idx =
     (if pos_idx = [] then Inr [] else compress_from m (sort pos_idx) 0 [])"

text \<open>The cooldown loop over \<^verbatim>\<open>keep_pos[1:]\<close>; \<open>final\<close> is never empty.\<close>

fun cooldown_loop :: "series \<Rightarrow> int \<Rightarrow> int list \<Rightarrow> int list \<Rightarrow> error + int list" where
  "cooldown_loop m c final [] = Inr final"
| "cooldown_loop m c final (p # ps) =
     (if final = [] then Inl IndexError
      else if c \<le> p - last final then cooldown_loop m c (final @ [p]) ps
      else (case abs_iloc m p of
              Inl e \<Rightarrow> Inl e
            | Inr kp \<Rightarrow>
               (case abs_iloc m (last final) of
                  Inl e \<Rightarrow> Inl e
                | Inr kl \<Rightarrow>
                   if fgt kp kl then cooldown_loop m c (butlast final @ [p]) ps
                   else cooldown_loop m c final ps)))"

definition apply_cooldown_keep_max_abs :: "series \<Rightarrow> int list \<Rightarrow> int \<Rightarrow> error + int list" where
  "apply_cooldown_keep_max_abs m keep_pos c =
     (case sort keep_pos of [] \<Rightarrow> Inr [] | p # ps \<Rightarrow> cooldown_loop m c [p] ps)"

text \<open>\<^verbatim>\<open>for p in keep_pos: swing_flag.iloc[p] = 1\<close>\<close>

fun set_flags :: "int list \<Rightarrow> int list \<Rightarrow> error + int list" where
  "set_flags flag [] = Inr flag"
| "set_flags flag (p # ps) =
     (case norm_index (length flag) p of
        None \<Rightarrow> Inl IndexError
      | Some k \<Rightarrow> set_flags (flag[k := 1]) ps)"

text \<open>Steps 1 and 2: the trend and the reversal flags.\<close>

definition trend_of :: "series \<Rightarrow> SwingParams \<Rightarrow> error + series" where
  "trend_of m params =
     (case ewm_mean (trend_span params) (diff m) of
        Inl e \<Rightarrow> Inl e
      | Inr trend \<Rightarrow>
          Inr (if fill_zero_trend params then ffill (replace_zero_nan trend) else trend))"

definition reversal :: "series \<Rightarrow> bool list" where
  "reversal trend =
     map2 (\<lambda>prev cur. (fgt prev (Some 0) \<and> fle cur (Some 0)) \<or> (flt prev (Some 0) \<and> fge cur (Some 0)))
       (shift1 trend) trend"

definition candidate_of :: "series \<Rightarrow> bool list \<Rightarrow> pyfloat \<Rightarrow> bool list" where
  "candidate_of m revs amp_thr = map2 (\<lambda>r x. r \<and> fgt (fabs x) amp_thr) revs m"

definition positions_of :: "bool list \<Rightarrow> int list" where
  "positions_of candidate = map int (filter (\<lambda>i. candidate ! i) [0..<length candidate])"

definition detect_swings :: "series \<Rightarrow> SwingParams \<Rightarrow> error + (int list \<times> int list \<times> pyfloat)" where
  "detect_swings m params =
     (if isna_all m then Inl (ValueError ''Momentum series is all NaN.'')
      else case trend_of m params of
        Inl e \<Rightarrow> Inl e
      | Inr trend \<Rightarrow>
         (case quantile (map fabs m) (amp_q params) of
            Inl e \<Rightarrow> Inl e
          | Inr amp_thr \<Rightarrow>
             (case compress_consecutive_by_max_abs m
                     (positions_of (candidate_of m (reversal trend) amp_thr)) of
                Inl e \<Rightarrow> Inl e
              | Inr keep_pos \<Rightarrow>
                 (case apply_cooldown_keep_max_abs m keep_pos (cool params) of
                    Inl e \<Rightarrow> Inl e
                  | Inr keep_pos' \<Rightarrow>
                     (case set_flags (replicate (length m) 0) keep_pos' of
                        Inl e \<Rightarrow> Inl e
                      | Inr swing_flag \<Rightarrow> Inr (swing_flag, keep_pos', amp_thr))))))"

section \<open>Properties of the helpers\<close>


definition valid_pos :: "series \<Rightarrow> int \<Rightarrow> bool" where
  "valid_pos m p = (0 \<le> p \<and> p < int (length m))"

lemma norm_index_valid: "valid_pos m p \<Longrightarrow> norm_index (length m) p = Some (nat p)"
  by (simp add: valid_pos_def norm_index_def)

lemma abs_iloc_valid: "valid_pos m p \<Longrightarrow> abs_iloc m p = Inr (fabs (m ! nat p))"
  by (simp add: abs_iloc_def norm_index_valid)

lemma max_abs_from_mem:
  "max_abs_from m best kbest ps = Inr b \<Longrightarrow> b = best \<or> b \<in> set ps"
  by (induction ps arbitrary: best kbest) (auto split: sum.splits if_splits)

lemma max_abs_mem: "max_abs m g = Inr b \<Longrightarrow> b \<in> set g"
  by (auto simp: max_abs_def split: list.splits sum.splits dest: max_abs_from_mem)

lemma max_abs_from_total:
  "list_all (valid_pos m) ps \<Longrightarrow> \<exists>b. max_abs_from m best kbest ps = Inr b"
  by (induction ps arbitrary: best kbest) (auto simp: abs_iloc_valid)

lemma max_abs_total:
  "g \<noteq> [] \<Longrightarrow> list_all (valid_pos m) g \<Longrightarrow> \<exists>b. max_abs m g = Inr b"
  by (cases g) (auto simp: max_abs_def abs_iloc_valid max_abs_from_total)

lemma extend_run_lt: "j < length pos_idx \<Longrightarrow> extend_run pos_idx j < length pos_idx"
proof (induction pos_idx j rule: extend_run.induct)
  case (1 pos_idx j)
  show ?case
  proof (cases "j + 1 < length pos_idx \<and> pos_idx ! (j + 1) = pos_idx ! j + 1")
    case True
    with 1 show ?thesis by (simp add: extend_run_step)
  next
    case False
    with 1 show ?thesis by (simp add: extend_run_stop)
  qed
qed

lemma compress_from_unfold:
  "i < length pos_idx \<Longrightarrow>
   compress_from m pos_idx i keep =
     (case max_abs m (run_group pos_idx i (extend_run pos_idx i)) of
        Inl e \<Rightarrow> Inl e
      | Inr best \<Rightarrow> compress_from m pos_idx (extend_run pos_idx i + 1) (keep @ [best]))"
  by (subst compress_from.simps) simp

lemma compress_from_done: "\<not> i < length pos_idx \<Longrightarrow> compress_from m pos_idx i keep = Inr keep"
  by (subst compress_from.simps) simp

lemma group_subset:
  "i < length pos_idx \<Longrightarrow> set (run_group pos_idx i (extend_run pos_idx i)) \<subseteq> set pos_idx"
  using extend_run_lt [of i pos_idx] unfolding run_group_def by (auto simp del: upt_Suc)

lemma compress_from_subset:
  "compress_from m pos_idx i keep = Inr r \<Longrightarrow> set r \<subseteq> set keep \<union> set pos_idx"
proof (induction m pos_idx i keep arbitrary: r rule: compress_from.induct)
  case (1 m pos_idx i keep)
  show ?case
  proof (cases "i < length pos_idx")
    case True
    from "1.prems" True obtain best where
      b: "max_abs m (run_group pos_idx i (extend_run pos_idx i)) = Inr best" and
      rec: "compress_from m pos_idx (extend_run pos_idx i + 1) (keep @ [best]) = Inr r"
      by (auto simp: compress_from_unfold split: sum.splits)
    from max_abs_mem [OF b] group_subset [OF True] have "best \<in> set pos_idx" by blast
    moreover from "1.IH" [OF True b rec] have "set r \<subseteq> set (keep @ [best]) \<union> set pos_idx" .
    ultimately show ?thesis by auto
  next
    case False
    with "1.prems" show ?thesis by (simp add: compress_from_done)
  qed
qed

lemma compress_from_total:
  "list_all (valid_pos m) pos_idx \<Longrightarrow> \<exists>r. compress_from m pos_idx i keep = Inr r"
proof (induction m pos_idx i keep rule: compress_from.induct)
  case (1 m pos_idx i keep)
  show ?case
  proof (cases "i < length pos_idx")
    case True
    have "list_all (valid_pos m) (run_group pos_idx i (extend_run pos_idx i))"
      using group_subset [OF True] "1.prems" by (auto simp: list_all_iff)
    moreover have "run_group pos_idx i (extend_run pos_idx i) \<noteq> []"
      using extend_run_ge [of i pos_idx] unfolding run_group_def by (simp del: upt_Suc)
    ultimately obtain best where
      b: "max_abs m (run_group pos_idx i (extend_run pos_idx i)) = Inr best"
      using max_abs_total by blast
    from "1.IH" [OF True b "1.prems"] show ?thesis
      by (simp add: compress_from_unfold [OF True] b)
  next
    case False
    then show ?thesis by (simp add: compress_from_done)
  qed
qed


lemma run_group_nth:
  "x \<in> set (run_group pos_idx i j) \<Longrightarrow> \<exists>k. i \<le> k \<and> k \<le> j \<and> x = pos_idx ! k"
  unfolding run_group_def by (auto simp del: upt_Suc)

lemma compress_from_sorted:
  "sorted_wrt (<) pos_idx \<Longrightarrow> sorted_wrt (<) keep \<Longrightarrow>
   (\<forall>x\<in>set keep. \<forall>k. i \<le> k \<and> k < length pos_idx \<longrightarrow> x < pos_idx ! k) \<Longrightarrow>
   compress_from m pos_idx i keep = Inr r \<Longrightarrow> sorted_wrt (<) r"
proof (induction m pos_idx i keep arbitrary: r rule: compress_from.induct)
  case (1 m pos_idx i keep)
  show ?case
  proof (cases "i < length pos_idx")
    case True
    let ?j = "extend_run pos_idx i"
    from "1.prems"(4) True obtain best where
      b: "max_abs m (run_group pos_idx i ?j) = Inr best" and
      rec: "compress_from m pos_idx (?j + 1) (keep @ [best]) = Inr r"
      by (auto simp: compress_from_unfold split: sum.splits)
    from max_abs_mem [OF b] obtain k where k: "i \<le> k" "k \<le> ?j" "best = pos_idx ! k"
      using run_group_nth by blast
    have jl: "?j < length pos_idx" using True by (rule extend_run_lt)
    have s: "sorted_wrt (<) (keep @ [best])"
      using "1.prems"(2,3) k jl by (auto simp: sorted_wrt_append)
    have inv: "\<forall>x\<in>set (keep @ [best]). \<forall>k'. ?j + 1 \<le> k' \<and> k' < length pos_idx \<longrightarrow> x < pos_idx ! k'"
    proof (intro ballI allI impI)
      fix x k' assume x: "x \<in> set (keep @ [best])" and k': "?j + 1 \<le> k' \<and> k' < length pos_idx"
      show "x < pos_idx ! k'"
      proof (cases "x \<in> set keep")
        case True
        with "1.prems"(3) k' extend_run_ge [of i pos_idx] show ?thesis by auto
      next
        case False
        with x have "x = pos_idx ! k" using k by simp
        moreover have "k < k'" using k k' by simp
        ultimately show ?thesis using "1.prems"(1) k' by (simp add: sorted_wrt_nth_less)
      qed
    qed
    from "1.IH" [OF True b "1.prems"(1) s inv rec] show ?thesis .
  next
    case False
    with "1.prems" show ?thesis by (simp add: compress_from_done)
  qed
qed

lemma sort_strict_id: "sorted_wrt (<) (xs :: int list) \<Longrightarrow> sort xs = xs"
  by (simp add: sorted_sort_id strict_sorted_imp_sorted)

lemma compress_sorted:
  "sorted_wrt (<) pos_idx \<Longrightarrow> compress_consecutive_by_max_abs m pos_idx = Inr r \<Longrightarrow>
   sorted_wrt (<) r"
  using compress_from_sorted [of pos_idx "[]" 0 m r]
  by (auto simp: compress_consecutive_by_max_abs_def sort_strict_id split: if_splits)

lemma compress_subset:
  "compress_consecutive_by_max_abs m pos_idx = Inr r \<Longrightarrow> set r \<subseteq> set pos_idx"
  using compress_from_subset [of m "sort pos_idx" 0 "[]" r]
  by (auto simp: compress_consecutive_by_max_abs_def split: if_splits)

lemma compress_total:
  "list_all (valid_pos m) pos_idx \<Longrightarrow> \<exists>r. compress_consecutive_by_max_abs m pos_idx = Inr r"
  using compress_from_total [of m "sort pos_idx" 0 "[]"]
  by (auto simp: compress_consecutive_by_max_abs_def list_all_iff)

subsection \<open>Cooldown\<close>

definition spaced :: "int \<Rightarrow> int list \<Rightarrow> bool" where
  "spaced c xs = sorted_wrt (\<lambda>a b. a < b \<and> c \<le> b - a) xs"

lemma spaced_last:
  "spaced c xs \<Longrightarrow> xs \<noteq> [] \<Longrightarrow> x \<in> set (butlast xs) \<Longrightarrow> x < last xs \<and> c \<le> last xs - x"
proof -
  assume a: "spaced c xs" "xs \<noteq> []" "x \<in> set (butlast xs)"
  then have "spaced c (butlast xs @ [last xs])" by simp
  with a(3) show ?thesis unfolding spaced_def sorted_wrt_append by auto
qed

lemma spaced_snoc:
  assumes "spaced c xs" "xs \<noteq> []" "last xs < p" "c \<le> p - last xs"
  shows "spaced c (xs @ [p])"
proof -
  have "\<forall>x\<in>set xs. x < p \<and> c \<le> p - x"
  proof
    fix x assume "x \<in> set xs"
    then have "x \<in> set (butlast xs) \<or> x = last xs"
      using assms(2) by (metis Un_iff append_butlast_last_id empty_iff insert_iff list.set(1) list.set(2) set_append)
    then show "x < p \<and> c \<le> p - x"
      using spaced_last [OF assms(1,2)] assms(3,4) by fastforce
  qed
  with assms(1) show ?thesis by (simp add: spaced_def sorted_wrt_append)
qed

lemma spaced_replace:
  assumes "spaced c xs" "xs \<noteq> []" "last xs < p"
  shows "spaced c (butlast xs @ [p])"
proof -
  have "spaced c (butlast xs)"
    using assms(1,2) unfolding spaced_def
    by (metis append_butlast_last_id sorted_wrt_append)
  moreover have "\<forall>x\<in>set (butlast xs). x < p \<and> c \<le> p - x"
    using spaced_last [OF assms(1,2)] assms(3) by fastforce
  ultimately show ?thesis by (simp add: spaced_def sorted_wrt_append)
qed

lemma cooldown_loop_spaced:
  "final \<noteq> [] \<Longrightarrow> spaced c final \<Longrightarrow> sorted_wrt (<) ps \<Longrightarrow> \<forall>q\<in>set ps. last final < q \<Longrightarrow>
   cooldown_loop m c final ps = Inr r \<Longrightarrow> spaced c r"
proof (induction ps arbitrary: final)
  case Nil
  then show ?case by simp
next
  case (Cons p ps)
  have lp: "last final < p" using Cons.prems(4) by simp
  have ps: "sorted_wrt (<) ps" and pq: "\<forall>q\<in>set ps. p < q" using Cons.prems(3) by auto
  show ?case
  proof (cases "c \<le> p - last final")
    case True
    with Cons.prems(1,5) have rec: "cooldown_loop m c (final @ [p]) ps = Inr r" by simp
    have "spaced c (final @ [p])" using spaced_snoc [OF Cons.prems(2,1) lp True] .
    from Cons.IH [OF _ this ps _ rec] pq show ?thesis by simp
  next
    case False
    with Cons.prems(1,5) obtain kp kl where
      k: "abs_iloc m p = Inr kp" "abs_iloc m (last final) = Inr kl" and
      rec: "cooldown_loop m c (if fgt kp kl then butlast final @ [p] else final) ps = Inr r"
      by (auto split: sum.splits if_splits)
    show ?thesis
    proof (cases "fgt kp kl")
      case True
      have "spaced c (butlast final @ [p])" using spaced_replace [OF Cons.prems(2,1) lp] .
      from Cons.IH [OF _ this ps _] rec True pq show ?thesis by simp
    next
      case False
      have "\<forall>q\<in>set ps. last final < q" using Cons.prems(4) by simp
      from Cons.IH [OF Cons.prems(1,2) ps this] rec False show ?thesis by simp
    qed
  qed
qed

lemma cooldown_loop_subset:
  "cooldown_loop m c final ps = Inr r \<Longrightarrow> set r \<subseteq> set final \<union> set ps"
proof (induction ps arbitrary: final)
  case Nil
  then show ?case by simp
next
  case (Cons p ps)
  have bl: "set (butlast final) \<subseteq> set final" by (auto dest: in_set_butlastD)
  from Cons.prems consider
      "cooldown_loop m c (final @ [p]) ps = Inr r"
    | "cooldown_loop m c (butlast final @ [p]) ps = Inr r"
    | "cooldown_loop m c final ps = Inr r"
    by (auto split: sum.splits if_splits)
  then show ?case
  proof cases
    case 1 from Cons.IH [OF 1] show ?thesis by auto
  next
    case 2 from Cons.IH [OF 2] bl show ?thesis by auto
  next
    case 3 from Cons.IH [OF 3] show ?thesis by auto
  qed
qed

lemma cooldown_loop_total:
  "final \<noteq> [] \<Longrightarrow> list_all (valid_pos m) final \<Longrightarrow> list_all (valid_pos m) ps \<Longrightarrow>
   \<exists>r. cooldown_loop m c final ps = Inr r"
proof (induction ps arbitrary: final)
  case Nil
  then show ?case by simp
next
  case (Cons p ps)
  have vl: "valid_pos m (last final)" using Cons.prems(1,2) by (simp add: list_all_iff)
  have vp: "valid_pos m p" and vps: "list_all (valid_pos m) ps" using Cons.prems(3) by auto
  have v1: "list_all (valid_pos m) (final @ [p])" using Cons.prems(2) vp by simp
  have v2: "list_all (valid_pos m) (butlast final @ [p])"
    using Cons.prems(2) vp by (auto simp: list_all_iff dest: in_set_butlastD)
  from Cons.IH [OF _ v1 vps] Cons.IH [OF _ v2 vps] Cons.IH [OF Cons.prems(1,2) vps]
  show ?case using Cons.prems(1) by (simp add: abs_iloc_valid vl vp)
qed

lemma set_flags_total:
  "list_all (\<lambda>p. 0 \<le> p \<and> p < int (length flag)) ps \<Longrightarrow> \<exists>r. set_flags flag ps = Inr r"
  by (induction ps arbitrary: flag) (auto simp: norm_index_def)


subsection \<open>Lengths and positions\<close>

lemma length_diff_from: "length (diff_from prev s) = length s"
  by (induction s arbitrary: prev) auto

lemma length_ewm_loop: "length (ewm_loop alpha w old_wt s) = length s"
  by (induction alpha w old_wt s rule: ewm_loop.induct) (auto simp: Let_def)

lemma length_ewm_mean: "ewm_mean span_n s = Inr t \<Longrightarrow> length t = length s"
  by (auto simp: ewm_mean_def Let_def length_ewm_loop split: if_splits list.splits)

lemma length_ffill_from: "length (ffill_from lastv s) = length s"
  by (induction lastv s rule: ffill_from.induct) auto

lemma length_trend_of: "trend_of m params = Inr trend \<Longrightarrow> length trend = length m"
  by (auto simp: trend_of_def diff_def ffill_def replace_zero_nan_def length_ffill_from
      length_diff_from split: sum.splits if_splits dest!: length_ewm_mean)

lemma length_shift1: "length (shift1 s) = length s"
  by (simp add: shift1_def)

lemma length_reversal: "length (reversal trend) = length trend"
  by (simp add: reversal_def length_shift1)

lemma length_candidate_of: "length (candidate_of m revs thr) = min (length revs) (length m)"
  by (simp add: candidate_of_def)

lemma candidate_of_nth:
  "i < length revs \<Longrightarrow> i < length m \<Longrightarrow>
   candidate_of m revs thr ! i = (revs ! i \<and> fgt (fabs (m ! i)) thr)"
  by (simp add: candidate_of_def)

lemma positions_of_sorted: "sorted_wrt (<) (positions_of c)"
  by (simp add: positions_of_def sorted_wrt_map sorted_wrt_filter)

lemma positions_of_mem:
  "p \<in> set (positions_of c) \<Longrightarrow> 0 \<le> p \<and> nat p < length c \<and> c ! nat p"
  by (auto simp: positions_of_def)

lemma trend_of_head: "trend_of m params = Inr trend \<Longrightarrow> trend \<noteq> [] \<Longrightarrow> trend ! 0 = None"
  by (cases m)
    (auto simp: trend_of_def diff_def ewm_mean_def fsub_def ffill_def replace_zero_nan_def Let_def
      split: sum.splits if_splits option.splits)

lemma reversal_0: "0 < length trend \<Longrightarrow> \<not> reversal trend ! 0"
  by (cases trend) (auto simp: reversal_def shift1_def fgt_def flt_def)

lemma reversal_Suc:
  "Suc i < length trend \<Longrightarrow>
   reversal trend ! Suc i =
     ((fgt (trend ! i) (Some 0) \<and> fle (trend ! Suc i) (Some 0)) \<or>
      (flt (trend ! i) (Some 0) \<and> fge (trend ! Suc i) (Some 0)))"
  by (simp add: reversal_def shift1_def)

lemma reversal_1: "trend ! 0 = None \<Longrightarrow> 1 < length trend \<Longrightarrow> \<not> reversal trend ! 1"
  using reversal_Suc [of 0 trend] by (simp add: fgt_def flt_def)

subsection \<open>What a successful call has computed\<close>

lemma spaced_strict: "spaced c xs \<Longrightarrow> sorted_wrt (<) xs"
  using sorted_wrt_mono_rel [of xs "\<lambda>a b. a < b \<and> c \<le> b - a" "(<)"] by (auto simp: spaced_def)

lemma apply_cooldown_spaced:
  assumes "sorted_wrt (<) keep_pos" "apply_cooldown_keep_max_abs m keep_pos c = Inr r"
  shows "spaced c r"
proof (cases keep_pos)
  case Nil
  with assms(2) show ?thesis by (simp add: apply_cooldown_keep_max_abs_def spaced_def)
next
  case (Cons p ps)
  have "sort keep_pos = p # ps" using assms(1) Cons sort_strict_id by blast
  with assms(2) have rec: "cooldown_loop m c [p] ps = Inr r"
    by (simp add: apply_cooldown_keep_max_abs_def)
  have "spaced c [p]" by (simp add: spaced_def)
  moreover have "sorted_wrt (<) ps" "\<forall>q\<in>set ps. last [p] < q" using assms(1) Cons by auto
  ultimately show ?thesis using cooldown_loop_spaced [OF _ _ _ _ rec] by simp
qed

lemma apply_cooldown_subset:
  assumes "apply_cooldown_keep_max_abs m keep_pos c = Inr r"
  shows "set r \<subseteq> set keep_pos"
proof (cases "sort keep_pos")
  case Nil
  with assms show ?thesis by (simp add: apply_cooldown_keep_max_abs_def)
next
  case (Cons p ps)
  with assms have "cooldown_loop m c [p] ps = Inr r"
    by (simp add: apply_cooldown_keep_max_abs_def)
  from cooldown_loop_subset [OF this] have "set r \<subseteq> set (sort keep_pos)" using Cons by simp
  then show ?thesis by simp
qed

lemma apply_cooldown_total:
  assumes "list_all (valid_pos m) keep_pos"
  shows "\<exists>r. apply_cooldown_keep_max_abs m keep_pos c = Inr r"
proof (cases "sort keep_pos")
  case Nil
  then show ?thesis by (simp add: apply_cooldown_keep_max_abs_def)
next
  case (Cons p ps)
  from assms have "list_all (valid_pos m) (sort keep_pos)" by (simp add: list_all_iff)
  with Cons have "list_all (valid_pos m) [p]" "list_all (valid_pos m) ps" by auto
  from cooldown_loop_total [OF _ this] show ?thesis
    by (simp add: apply_cooldown_keep_max_abs_def Cons)
qed

lemma detect_swings_Inr:
  assumes "detect_swings m params = Inr (swing_flag, keep_pos, amp_thr)"
  obtains trend where
    "\<not> isna_all m" "trend_of m params = Inr trend"
    "quantile (map fabs m) (amp_q params) = Inr amp_thr"
    "set keep_pos \<subseteq> set (positions_of (candidate_of m (reversal trend) amp_thr))"
    "spaced (cool params) keep_pos"
proof -
  from assms obtain trend kp where
    n: "\<not> isna_all m" and t: "trend_of m params = Inr trend" and
    q: "quantile (map fabs m) (amp_q params) = Inr amp_thr" and
    c: "compress_consecutive_by_max_abs m (positions_of (candidate_of m (reversal trend) amp_thr)) = Inr kp" and
    a: "apply_cooldown_keep_max_abs m kp (cool params) = Inr keep_pos"
    by (auto simp: detect_swings_def split: if_splits sum.splits)
  have "sorted_wrt (<) kp" using compress_sorted [OF positions_of_sorted c] .
  then have "spaced (cool params) keep_pos" using a by (rule apply_cooldown_spaced)
  moreover have "set keep_pos \<subseteq> set (positions_of (candidate_of m (reversal trend) amp_thr))"
    using apply_cooldown_subset [OF a] compress_subset [OF c] by blast
  ultimately show ?thesis using that n t q by blast
qed

lemma candidate_positions_valid:
  assumes "trend_of m params = Inr trend"
  shows "list_all (valid_pos m) (positions_of (candidate_of m (reversal trend) thr))"
proof -
  have "length (candidate_of m (reversal trend) thr) = length m"
    using length_trend_of [OF assms] by (simp add: length_candidate_of length_reversal)
  then show ?thesis
    by (auto simp: list_all_iff valid_pos_def dest!: positions_of_mem)
qed

lemma detect_swings_rest_total:
  assumes "\<not> isna_all m" "trend_of m params = Inr trend"
    "quantile (map fabs m) (amp_q params) = Inr amp_thr"
  shows "\<exists>swing_flag keep_pos. detect_swings m params = Inr (swing_flag, keep_pos, amp_thr)"
proof -
  let ?pos = "positions_of (candidate_of m (reversal trend) amp_thr)"
  have v: "list_all (valid_pos m) ?pos" using assms(2) by (rule candidate_positions_valid)
  then obtain kp where c: "compress_consecutive_by_max_abs m ?pos = Inr kp"
    using compress_total by blast
  have vk: "list_all (valid_pos m) kp" using compress_subset [OF c] v by (auto simp: list_all_iff)
  then obtain kp' where a: "apply_cooldown_keep_max_abs m kp (cool params) = Inr kp'"
    using apply_cooldown_total by blast
  have "list_all (valid_pos m) kp'" using apply_cooldown_subset [OF a] vk by (auto simp: list_all_iff)
  then have "list_all (\<lambda>p. 0 \<le> p \<and> p < int (length (replicate (length m) (0::int)))) kp'"
    by (simp add: valid_pos_def list_all_iff)
  then obtain fl where f: "set_flags (replicate (length m) 0) kp' = Inr fl"
    using set_flags_total by blast
  show ?thesis using assms c a f by (simp add: detect_swings_def)
qed

section \<open>A run of the detector\<close>


definition ex_m :: series where
  "ex_m = [Some 0, Some 1, Some 3, Some 2, Some (-3), Some (-2), Some 0]"

definition ex_params :: SwingParams where
  "ex_params = \<lparr>trend_span = 1, amp_q = 1/4, cool = 2, fill_zero_trend = True\<rparr>"


lemma ex_trend: "trend_of ex_m ex_params = Inr [None, Some 1, Some 2, Some (-1), Some (-5), Some 1, Some 2]"
  by (simp add: trend_of_def ex_m_def ex_params_def diff_def fsub_def ewm_mean_def Let_def
      replace_zero_nan_def ffill_def)

lemma ex_quant: "quantile (map fabs ex_m) (amp_q ex_params) = Inr (Some (1/2))"
  by (simp add: quantile_def ex_m_def ex_params_def fabs_def Let_def)


lemma ex_rev: "reversal [None, Some 1, Some 2, Some (-1), Some (-5), Some 1, Some 2]
   = [False, False, False, True, False, True, False]"
  by (simp add: reversal_def shift1_def fgt_def flt_def fle_def fge_def)

lemma ex_cand: "candidate_of ex_m [False, False, False, True, False, True, False] (Some (1/2))
   = [False, False, False, True, False, True, False]"
  by (simp add: candidate_of_def ex_m_def fgt_def fabs_def)

lemma ex_pos: "positions_of [False, False, False, True, False, True, False] = [3, 5]"
  by (simp add: positions_of_def upt_rec)

lemma ex_compress: "compress_consecutive_by_max_abs ex_m [3, 5] = Inr [3, 5]"
  by (simp add: compress_consecutive_by_max_abs_def compress_from_unfold compress_from_done
      extend_run_stop run_group_def max_abs_def abs_iloc_def norm_index_def ex_m_def fabs_def)

lemma ex_cool: "apply_cooldown_keep_max_abs ex_m [3, 5] 2 = Inr [3, 5]"
  by (simp add: apply_cooldown_keep_max_abs_def)

lemma ex_flags: "set_flags (replicate (length ex_m) 0) [3, 5] = Inr [0, 0, 0, 1, 0, 1, 0]"
  by (simp add: ex_m_def norm_index_def numeral_eq_Suc)

lemma ex_run: "detect_swings ex_m ex_params = Inr ([0, 0, 0, 1, 0, 1, 0], [3, 5], Some (1/2))"
proof -
  have "\<not> isna_all ex_m" by (simp add: isna_all_def ex_m_def)
  moreover have "cool ex_params = 2" by (simp add: ex_params_def)
  ultimately show ?thesis
    by (simp add: detect_swings_def ex_trend ex_quant ex_rev ex_cand ex_pos ex_compress ex_cool ex_flags
        del: set_flags.simps)
qed


lemma isna_all_dropna: "isna_all m = (dropna m = [])"
  by (induction m rule: dropna.induct) (auto simp: isna_all_def)

section \<open>Claims about detect_swings\<close>

text \<open>
  Claim C3. Whenever \<open>detect_swings\<close> returns, for any momentum series and any
  parameters, its list of kept positions is strictly increasing, has no duplicate, and
  any two consecutive kept positions are at least \<open>cool\<close> apart.
\<close>

theorem detect_swings_spacing:
  assumes "detect_swings m params = Inr (swing_flag, keep_pos, amp_thr)"
  shows "sorted_wrt (<) keep_pos \<and> distinct keep_pos \<and>
         (\<forall>i. Suc i < length keep_pos \<longrightarrow> cool params \<le> keep_pos ! Suc i - keep_pos ! i)"
proof -
  from assms obtain trend where sp: "spaced (cool params) keep_pos"
    by (rule detect_swings_Inr)
  then have s: "sorted_wrt (<) keep_pos" by (rule spaced_strict)
  then have d: "distinct keep_pos" by (simp add: strict_sorted_iff)
  have "\<forall>i. Suc i < length keep_pos \<longrightarrow> cool params \<le> keep_pos ! Suc i - keep_pos ! i"
  proof (intro allI impI)
    fix i assume "Suc i < length keep_pos"
    with sp have "keep_pos ! i < keep_pos ! Suc i \<and> cool params \<le> keep_pos ! Suc i - keep_pos ! i"
      unfolding spaced_def using sorted_wrt_nth_less [of _ keep_pos i "Suc i"] by simp
    then show "cool params \<le> keep_pos ! Suc i - keep_pos ! i" by simp
  qed
  with s d show ?thesis by simp
qed

theorem detect_swings_spacing_witness:
  "detect_swings ex_m ex_params = Inr ([0, 0, 0, 1, 0, 1, 0], [3, 5], Some (1/2)) \<and>
   sorted_wrt (<) [3, 5 :: int] \<and> distinct [3, 5 :: int] \<and>
   cool ex_params \<le> [3, 5] ! Suc 0 - [3, 5] ! 0"
  using detect_swings_spacing [OF ex_run] ex_run by simp

text \<open>
  Claim C9. Every kept position \<open>p\<close> of a call that returns is a valid position of
  the series and satisfies \<open>|m[p]| > amp_thr\<close> for the threshold returned by the same
  call: compression and cooldown only select among the candidates.
\<close>

theorem detect_swings_amplitude:
  assumes "detect_swings m params = Inr (swing_flag, keep_pos, amp_thr)" and "p \<in> set keep_pos"
  shows "0 \<le> p \<and> p < int (length m) \<and> fgt (fabs (m ! nat p)) amp_thr"
proof -
  from assms(1) obtain trend where
    t: "trend_of m params = Inr trend" and
    sub: "set keep_pos \<subseteq> set (positions_of (candidate_of m (reversal trend) amp_thr))"
    by (rule detect_swings_Inr)
  let ?c = "candidate_of m (reversal trend) amp_thr"
  have len: "length ?c = length m"
    using length_trend_of [OF t] by (simp add: length_candidate_of length_reversal)
  from sub assms(2) have "p \<in> set (positions_of ?c)" by blast
  then have p: "0 \<le> p" "nat p < length ?c" "?c ! nat p" using positions_of_mem by blast+
  from p(2) len have lt: "nat p < length m" by simp
  with p(3) length_trend_of [OF t] have "fgt (fabs (m ! nat p)) amp_thr"
    by (simp add: candidate_of_nth length_reversal)
  with p(1) lt show ?thesis by simp
qed

theorem detect_swings_amplitude_witness:
  "3 \<in> set [3, 5 :: int] \<and> fgt (fabs (ex_m ! nat 3)) (Some (1/2))"
  using detect_swings_amplitude [OF ex_run, of 3] by simp

text \<open>
  Claim C10. Positions 0 and 1 are never kept: the slope is NaN at position 0, so the
  trend is NaN there, and the reversal test needs a previous trend value that is a number.
\<close>

theorem detect_swings_not_before_2:
  assumes "detect_swings m params = Inr (swing_flag, keep_pos, amp_thr)"
  shows "0 \<notin> set keep_pos \<and> 1 \<notin> set keep_pos"
proof -
  from assms obtain trend where
    t: "trend_of m params = Inr trend" and
    sub: "set keep_pos \<subseteq> set (positions_of (candidate_of m (reversal trend) amp_thr))"
    by (rule detect_swings_Inr)
  let ?c = "candidate_of m (reversal trend) amp_thr"
  have lt: "length trend = length m" using t by (rule length_trend_of)
  have len: "length ?c = length m"
    using lt by (simp add: length_candidate_of length_reversal)
  have no: "\<not> (k < length m \<and> ?c ! k)" if "k = 0 \<or> k = 1" for k
  proof
    assume a: "k < length m \<and> ?c ! k"
    then have k: "k < length m" and ck: "?c ! k" by simp_all
    from ck k lt have r: "reversal trend ! k" by (simp add: candidate_of_nth length_reversal)
    from a lt have "trend \<noteq> []" by auto
    then have "trend ! 0 = None" using t trend_of_head by blast
    with that a lt r reversal_0 [of trend] reversal_1 [of trend] show False by auto
  qed
  have "p \<notin> set keep_pos" if "p = 0 \<or> p = 1" for p :: int
  proof
    assume "p \<in> set keep_pos"
    with sub have "p \<in> set (positions_of ?c)" by blast
    then have "nat p < length ?c \<and> ?c ! nat p" using positions_of_mem by blast
    with len no [of "nat p"] that show False by auto
  qed
  then show ?thesis by simp
qed

theorem detect_swings_not_before_2_witness:
  "detect_swings ex_m ex_params = Inr ([0, 0, 0, 1, 0, 1, 0], [3, 5], Some (1/2)) \<and>
   (0::int) \<notin> set [3, 5] \<and> (1::int) \<notin> set [3, 5]"
  using detect_swings_not_before_2 [OF ex_run] ex_run by simp

lemma trend_of_error:
  "trend_of m params = Inl e \<Longrightarrow> e = ValueError ''span must satisfy: span >= 1''"
  by (auto simp: trend_of_def ewm_mean_def Let_def split: sum.splits if_splits)

lemma quantile_error:
  "quantile s q = Inl e \<Longrightarrow> e = ValueError ''percentiles should all be in the interval [0, 1]''"
  by (auto simp: quantile_def Let_def split: if_splits)

text \<open>
  Claim C7. \<open>detect_swings\<close> fails with the error for a series without usable value
  (\<^verbatim>\<open>ValueError("Momentum series is all NaN.")\<close>) exactly when the series has no
  number in it: it is empty or every cell is NaN.
\<close>

theorem detect_swings_empty_series:
  "(detect_swings m params = Inl (ValueError ''Momentum series is all NaN.'')) = (dropna m = [])"
proof (cases "isna_all m")
  case True
  then show ?thesis by (simp add: detect_swings_def isna_all_dropna)
next
  case False
  have "detect_swings m params \<noteq> Inl (ValueError ''Momentum series is all NaN.'')"
  proof (cases "trend_of m params")
    case (Inl e)
    with False trend_of_error [OF Inl] show ?thesis by (simp add: detect_swings_def)
  next
    case (Inr trend)
    show ?thesis
    proof (cases "quantile (map fabs m) (amp_q params)")
      case (Inl e)
      with False Inr quantile_error [OF Inl] show ?thesis by (simp add: detect_swings_def)
    next
      case thr: (Inr amp_thr)
      from detect_swings_rest_total [OF False Inr thr] show ?thesis by auto
    qed
  qed
  with False show ?thesis by (simp add: isna_all_dropna)
qed

theorem detect_swings_empty_series_witness:
  "detect_swings [None, None] ex_params = Inl (ValueError ''Momentum series is all NaN.'') \<and>
   detect_swings [] ex_params = Inl (ValueError ''Momentum series is all NaN.'') \<and>
   detect_swings ex_m ex_params \<noteq> Inl (ValueError ''Momentum series is all NaN.'')"
  using detect_swings_empty_series [of "[None, None]" ex_params]
    detect_swings_empty_series [of "[]" ex_params]
    detect_swings_empty_series [of ex_m ex_params]
  by (simp add: ex_m_def)

section \<open>Claims about momentum.py\<close>

text \<open>
  Claim C6. \<open>compute_momentum\<close> fails with a KeyError when the column its method
  reads is absent (\<open>point_col\<close> for "rm" and "ewm", \<open>serve_adj_col\<close> for "srv_ewm"),
  and with a ValueError for any other method name; a failure is a value \<open>Inl\<close>, so no
  series is returned with it.
\<close>

theorem compute_momentum_errors:
  "((method = ''rm'' \<or> method = ''ewm'') \<and> df_match point_col = None \<longrightarrow>
      compute_momentum df_match method window span_n point_col serve_adj_col
        = Inl (KeyError (missing_msg point_col method))) \<and>
   (method = ''srv_ewm'' \<and> df_match serve_adj_col = None \<longrightarrow>
      compute_momentum df_match method window span_n point_col serve_adj_col
        = Inl (KeyError (missing_msg serve_adj_col method))) \<and>
   (method \<noteq> ''rm'' \<and> method \<noteq> ''ewm'' \<and> method \<noteq> ''srv_ewm'' \<longrightarrow>
      compute_momentum df_match method window span_n point_col serve_adj_col
        = Inl (ValueError (''Unknown method: '' @ method)))"
  by (auto simp: compute_momentum_def)

theorem compute_momentum_errors_witness:
  "compute_momentum Map.empty ''rm'' 15 25 ''point_result'' ''serve_adj_p1''
     = Inl (KeyError (missing_msg ''point_result'' ''rm'')) \<and>
   compute_momentum [''point_result'' \<mapsto> [Some 1]] ''srv_ewm'' 15 25 ''point_result'' ''serve_adj_p1''
     = Inl (KeyError (missing_msg ''serve_adj_p1'' ''srv_ewm'')) \<and>
   compute_momentum [''point_result'' \<mapsto> [Some 1]] ''mean'' 15 25 ''point_result'' ''serve_adj_p1''
     = Inl (ValueError ''Unknown method: mean'')"
  using compute_momentum_errors [of "''rm''" Map.empty "''point_result''" 15 25 "''serve_adj_p1''"]
    compute_momentum_errors [of "''srv_ewm''" "[''point_result'' \<mapsto> [Some 1]]" "''point_result''" 15 25 "''serve_adj_p1''"]
    compute_momentum_errors [of "''mean''" "[''point_result'' \<mapsto> [Some 1]]" "''point_result''" 15 25 "''serve_adj_p1''"]
  by simp


section \<open>The scenario of the specification\<close>

definition scenario_m :: series where
  "scenario_m = map Some [0, 1, 2, 1, 0, -1, -2, -1, 0, 1, 2]"

definition scenario_params :: SwingParams where
  "scenario_params = \<lparr>trend_span = 1, amp_q = 1/2, cool = 2, fill_zero_trend = True\<rparr>"

definition scenario_trend :: series where
  "scenario_trend = [None, Some 1, Some 1, Some (-1), Some (-1), Some (-1), Some (-1),
     Some 1, Some 1, Some 1, Some 1]"

lemma scenario_trend_of: "trend_of scenario_m scenario_params = Inr scenario_trend"
  by (simp add: trend_of_def scenario_m_def scenario_params_def scenario_trend_def diff_def
      fsub_def ewm_mean_def Let_def replace_zero_nan_def ffill_def)

lemma scenario_quantile: "quantile (map fabs scenario_m) (amp_q scenario_params) = Inr (Some 1)"
  by (simp add: quantile_def scenario_m_def scenario_params_def fabs_def Let_def)

lemma scenario_reversal:
  "reversal scenario_trend
     = [False, False, False, True, False, False, False, True, False, False, False]"
  by (simp add: reversal_def scenario_trend_def shift1_def fgt_def flt_def fle_def fge_def)

lemma scenario_candidate:
  "candidate_of scenario_m
     [False, False, False, True, False, False, False, True, False, False, False] (Some 1)
     = replicate 11 False"
  by (simp add: candidate_of_def scenario_m_def fgt_def fabs_def numeral_eq_Suc)

lemma scenario_positions: "positions_of (replicate 11 False) = []"
  by (simp add: positions_of_def filter_empty_conv)

lemma scenario_reversal_positions:
  "positions_of [False, False, False, True, False, False, False, True, False, False, False] = [3, 7]"
  by (simp add: positions_of_def upt_rec)

lemma scenario_run:
  "detect_swings scenario_m scenario_params = Inr (replicate 11 0, [], Some 1)"
proof -
  have "\<not> isna_all scenario_m" by (simp add: isna_all_def scenario_m_def)
  moreover have "length scenario_m = 11" by (simp add: scenario_m_def)
  ultimately show ?thesis
    by (simp add: detect_swings_def scenario_trend_of scenario_quantile scenario_reversal
        scenario_candidate scenario_positions compress_consecutive_by_max_abs_def
        apply_cooldown_keep_max_abs_def)
qed

text \<open>
  Claim C1, as stated, is false: for the momentum series
  \<open>[0,1,2,1,0,-1,-2,-1,0,1,2]\<close> with \<open>trend_span = 1\<close>, \<open>amp_q = 0.5\<close>,
  \<open>cool = 2\<close> and \<open>fill_zero_trend\<close> set, the detector returns, and its list of
  kept positions is empty.
\<close>

theorem scenario_no_event:
  "\<not> (\<exists>swing_flag keep_pos amp_thr.
        detect_swings scenario_m scenario_params = Inr (swing_flag, keep_pos, amp_thr) \<and>
        keep_pos \<noteq> [])"
  by (simp add: scenario_run)

text \<open>
  Claim C1, amended: on that input the detector returns no event, all flags 0 and the
  threshold 1. The trend reverses at positions 3 and 7, one after the local maximum at 2
  and the local minimum at 6, and there \<open>|m| = 1\<close> is not greater than the threshold.
\<close>

theorem scenario_result:
  "detect_swings scenario_m scenario_params = Inr (replicate 11 0, [], Some 1) \<and>
   trend_of scenario_m scenario_params = Inr scenario_trend \<and>
   positions_of (reversal scenario_trend) = [3, 7] \<and>
   fabs (scenario_m ! 3) = Some 1 \<and> fabs (scenario_m ! 7) = Some 1 \<and>
   \<not> fgt (Some 1) (Some 1)"
proof -
  have "fabs (scenario_m ! 3) = Some 1" "fabs (scenario_m ! 7) = Some 1"
    by (simp_all add: scenario_m_def fabs_def)
  then show ?thesis
    by (simp add: scenario_run scenario_trend_of scenario_reversal scenario_reversal_positions
        fgt_def)
qed


section \<open>Forward fill of a zero trend\<close>

text \<open>
  The nearest non-zero number before position \<open>i\<close> of a series, NaN when there is
  none: what the specification calls the nearest preceding non-zero trend value.
\<close>

definition nonzero_number :: "pyfloat \<Rightarrow> bool" where
  "nonzero_number x = (x \<noteq> None \<and> x \<noteq> Some 0)"

definition last_nonzero_before :: "series \<Rightarrow> nat \<Rightarrow> pyfloat" where
  "last_nonzero_before s i =
     (case filter nonzero_number (take i s) of [] \<Rightarrow> None | x # xs \<Rightarrow> last (x # xs))"

lemma case_last:
  "(case xs of [] \<Rightarrow> d | x # ys \<Rightarrow> last (x # ys)) = (if xs = [] then d else last xs)"
  by (cases xs) simp_all

lemma ffill_from_nth:
  "i < length s \<Longrightarrow>
   ffill_from lastv (replace_zero_nan s) ! i =
     (case filter nonzero_number (take (Suc i) s) of [] \<Rightarrow> lastv | x # xs \<Rightarrow> last (x # xs))"
proof (induction s arbitrary: lastv i)
  case Nil
  then show ?case by simp
next
  case (Cons a s)
  show ?case
  proof (cases i)
    case 0
    then show ?thesis
      by (cases a) (auto simp: replace_zero_nan_def nonzero_number_def)
  next
    case (Suc j)
    with Cons.prems have j: "j < length s" by simp
    show ?thesis
    proof (cases "nonzero_number a")
      case True
      then obtain v where a: "a = Some v" "v \<noteq> 0" by (auto simp: nonzero_number_def)
      have "ffill_from lastv (replace_zero_nan (a # s)) ! i
          = ffill_from (Some v) (replace_zero_nan s) ! j"
        using a Suc by (simp add: replace_zero_nan_def)
      also have "\<dots> = (case filter nonzero_number (take (Suc j) s) of
                         [] \<Rightarrow> Some v | x # xs \<Rightarrow> last (x # xs))"
        using Cons.IH [OF j] .
      also have "\<dots> = (case filter nonzero_number (take (Suc i) (a # s)) of
                         [] \<Rightarrow> lastv | x # xs \<Rightarrow> last (x # xs))"
        using True a Suc by (simp split: list.splits)
      finally show ?thesis .
    next
      case False
      then have "replace_zero_nan (a # s) = None # replace_zero_nan s"
        by (auto simp: replace_zero_nan_def nonzero_number_def)
      then have "ffill_from lastv (replace_zero_nan (a # s)) ! i
          = ffill_from lastv (replace_zero_nan s) ! j"
        using Suc by simp
      also have "\<dots> = (case filter nonzero_number (take (Suc j) s) of
                         [] \<Rightarrow> lastv | x # xs \<Rightarrow> last (x # xs))"
        using Cons.IH [OF j] .
      also have "\<dots> = (case filter nonzero_number (take (Suc i) (a # s)) of
                         [] \<Rightarrow> lastv | x # xs \<Rightarrow> last (x # xs))"
        using False Suc by simp
      finally show ?thesis .
    qed
  qed
qed

lemma ffill_zero_nth:
  assumes "i < length s" "\<not> nonzero_number (s ! i)"
  shows "ffill (replace_zero_nan s) ! i = last_nonzero_before s i"
proof -
  have "filter nonzero_number (take (Suc i) s) = filter nonzero_number (take i s)"
    using assms by (simp add: take_Suc_conv_app_nth)
  then show ?thesis
    using ffill_from_nth [OF assms(1), of None] by (simp add: ffill_def last_nonzero_before_def)
qed

lemma ffill_nonzero_nth:
  assumes "i < length s" "nonzero_number (s ! i)"
  shows "ffill (replace_zero_nan s) ! i = s ! i"
proof -
  have "filter nonzero_number (take (Suc i) s) = filter nonzero_number (take i s) @ [s ! i]"
    using assms by (simp add: take_Suc_conv_app_nth)
  then show ?thesis
    using ffill_from_nth [OF assms(1), of None] by (simp add: ffill_def case_last)
qed

lemma last_nonzero_before_number:
  "last_nonzero_before s i = Some v \<Longrightarrow> v \<noteq> 0 \<and> (\<exists>j<i. j < length s \<and> s ! j = Some v)"
proof -
  assume a: "last_nonzero_before s i = Some v"
  let ?f = "filter nonzero_number (take i s)"
  from a have ne: "?f \<noteq> []" and l: "last ?f = Some v"
    by (auto simp: last_nonzero_before_def split: list.splits)
  then have "Some v \<in> set ?f" using last_in_set by metis
  then have "nonzero_number (Some v)" "Some v \<in> set (take i s)" by auto
  then show ?thesis by (auto simp: nonzero_number_def in_set_conv_nth)
qed


definition flat_start_m :: series where
  "flat_start_m = [Some 1, Some 1, Some 2]"

definition flat_middle_m :: series where
  "flat_middle_m = [Some 0, Some 1, Some 1, Some 3]"

lemma flat_start_raw:
  "ewm_mean (trend_span scenario_params) (diff flat_start_m) = Inr [None, Some 0, Some 1]"
  by (simp add: flat_start_m_def scenario_params_def diff_def fsub_def ewm_mean_def Let_def)

lemma flat_start_trend: "trend_of flat_start_m scenario_params = Inr [None, None, Some 1]"
  by (simp add: trend_of_def flat_start_raw)
    (simp add: scenario_params_def replace_zero_nan_def ffill_def)

lemma flat_start_last: "last_nonzero_before [None, Some 0, Some 1] (Suc 0) = None"
  by (simp add: last_nonzero_before_def nonzero_number_def)

lemma flat_middle_raw:
  "ewm_mean (trend_span scenario_params) (diff flat_middle_m) = Inr [None, Some 1, Some 0, Some 2]"
  by (simp add: flat_middle_m_def scenario_params_def diff_def fsub_def ewm_mean_def Let_def)

lemma flat_middle_last: "last_nonzero_before [None, Some 1, Some 0, Some 2] 2 = Some 1"
  by (simp add: last_nonzero_before_def nonzero_number_def numeral_2_eq_2)

text \<open>
  Claim C2, as stated, is false where it says that a zero trend value with no non-zero
  value before it stays 0: for the momentum series \<open>[1, 1, 2]\<close> the smoothed trend is
  \<open>[NaN, 0, 1]\<close>, and with \<open>fill_zero_trend\<close> the code leaves NaN, not 0, at
  position 1.
\<close>

theorem zero_trend_stays_zero_counterexample:
  "\<not> (\<forall>m params raw trend i.
        ewm_mean (trend_span params) (diff m) = Inr raw \<and> fill_zero_trend params \<and>
        trend_of m params = Inr trend \<and> i < length raw \<and> raw ! i = Some 0 \<longrightarrow>
        trend ! i = (case last_nonzero_before raw i of None \<Rightarrow> Some 0 | Some v \<Rightarrow> Some v))"
proof
  assume "\<forall>m params raw trend i.
        ewm_mean (trend_span params) (diff m) = Inr raw \<and> fill_zero_trend params \<and>
        trend_of m params = Inr trend \<and> i < length raw \<and> raw ! i = Some 0 \<longrightarrow>
        trend ! i = (case last_nonzero_before raw i of None \<Rightarrow> Some 0 | Some v \<Rightarrow> Some v)"
  then have "ewm_mean (trend_span scenario_params) (diff flat_start_m) = Inr [None, Some 0, Some 1] \<and>
      fill_zero_trend scenario_params \<and>
      trend_of flat_start_m scenario_params = Inr [None, None, Some 1] \<and>
      1 < length [None, Some 0, Some (1::real)] \<and> [None, Some 0, Some (1::real)] ! 1 = Some 0 \<longrightarrow>
      [None, None, Some (1::real)] ! 1 =
        (case last_nonzero_before [None, Some 0, Some 1] 1 of None \<Rightarrow> Some 0 | Some v \<Rightarrow> Some v)"
    by blast
  then show False
    by (simp add: flat_start_raw flat_start_trend flat_start_last) (simp add: scenario_params_def)
qed

text \<open>
  Claim C2, amended: when \<open>fill_zero_trend\<close> is set, every smoothed-trend value
  exactly equal to 0 is replaced by the nearest preceding non-zero trend value, and a
  zero trend value with no preceding non-zero value becomes NaN, so that every sign
  comparison at such a position is false.
\<close>

theorem zero_trend_forward_fill:
  assumes "ewm_mean (trend_span params) (diff m) = Inr raw" and "fill_zero_trend params"
    and "i < length raw" and "raw ! i = Some 0"
  shows "\<exists>trend. trend_of m params = Inr trend \<and>
           trend ! i = last_nonzero_before raw i \<and>
           (last_nonzero_before raw i = None \<longrightarrow>
              trend ! i = None \<and>
              \<not> fgt (trend ! i) (Some 0) \<and> \<not> flt (trend ! i) (Some 0) \<and>
              \<not> fge (trend ! i) (Some 0) \<and> \<not> fle (trend ! i) (Some 0))"
proof -
  have t: "trend_of m params = Inr (ffill (replace_zero_nan raw))"
    using assms(1,2) by (simp add: trend_of_def)
  have "\<not> nonzero_number (raw ! i)" using assms(4) by (simp add: nonzero_number_def)
  then have "ffill (replace_zero_nan raw) ! i = last_nonzero_before raw i"
    using assms(3) by (rule ffill_zero_nth [rotated])
  with t show ?thesis by (simp add: fgt_def flt_def fge_def fle_def)
qed

theorem zero_trend_forward_fill_witness:
  "(\<exists>trend. trend_of flat_middle_m scenario_params = Inr trend \<and> trend ! 2 = Some 1) \<and>
   (\<exists>trend. trend_of flat_start_m scenario_params = Inr trend \<and> trend ! 1 = None)"
proof -
  have f: "fill_zero_trend scenario_params" by (simp add: scenario_params_def)
  have "(2::nat) < length [None, Some 1, Some 0, Some (2::real)]"
    "[None, Some 1, Some 0, Some (2::real)] ! 2 = Some 0" by simp_all
  from zero_trend_forward_fill [OF flat_middle_raw f this]
  have a: "\<exists>trend. trend_of flat_middle_m scenario_params = Inr trend \<and> trend ! 2 = Some 1"
    by (simp add: flat_middle_last)
  have "(1::nat) < length [None, Some 0, Some (1::real)]"
    "[None, Some 0, Some (1::real)] ! 1 = Some 0" by simp_all
  from zero_trend_forward_fill [OF flat_start_raw f this]
  have "\<exists>trend. trend_of flat_start_m scenario_params = Inr trend \<and> trend ! 1 = None"
    by (auto simp: flat_start_last)
  with a show ?thesis by simp
qed


section \<open>The rolling mean\<close>








section \<open>Exponential smoothing\<close>





















section \<open>Run compression\<close>

text \<open>
  The words of the specification: a run is a non-empty list of consecutive integers,
  the runs of a decomposition are maximal when no run continues into the next, and the
  representative of a run is its position of greatest magnitude, the earliest of them
  when several reach it.
\<close>

fun consecutive :: "int list \<Rightarrow> bool" where
  "consecutive [] = True"
| "consecutive [p] = True"
| "consecutive (p # q # ps) = (q = p + 1 \<and> consecutive (q # ps))"

fun separated :: "int list list \<Rightarrow> bool" where
  "separated [] = True"
| "separated [g] = True"
| "separated (g # h # gs) = (hd h \<noteq> last g + 1 \<and> separated (h # gs))"

definition is_representative :: "series \<Rightarrow> int list \<Rightarrow> int \<Rightarrow> bool" where
  "is_representative m g b =
     (b \<in> set g \<and>
      list_all (\<lambda>p. fle (fabs (m ! nat p)) (fabs (m ! nat b))) g \<and>
      list_all (\<lambda>p. p < b \<longrightarrow> flt (fabs (m ! nat p)) (fabs (m ! nat b))) g)"

definition number_at :: "series \<Rightarrow> int \<Rightarrow> bool" where
  "number_at m p = (valid_pos m p \<and> m ! nat p \<noteq> None)"

lemma fabs_None: "(fabs a = None) = (a = None)"
  by (simp add: fabs_def split: option.splits)

lemma fle_refl: "a \<noteq> None \<Longrightarrow> fle a a"
  by (auto simp: fle_def split: option.splits)

lemma not_fgt_fle: "a \<noteq> None \<Longrightarrow> b \<noteq> None \<Longrightarrow> \<not> fgt a b \<Longrightarrow> fle a b"
  by (auto simp: fle_def fgt_def split: option.splits)

lemma fgt_flt: "fgt a b \<Longrightarrow> flt b a"
  by (auto simp: flt_def fgt_def split: option.splits)

lemma flt_fle: "flt a b \<Longrightarrow> fle a b"
  by (auto simp: flt_def fle_def split: option.splits)

lemma fle_trans: "fle a b \<Longrightarrow> fle b c \<Longrightarrow> fle a c"
  by (auto simp: fle_def split: option.splits)

lemma flt_fle_trans: "flt a b \<Longrightarrow> fle b c \<Longrightarrow> flt a c"
  by (auto simp: flt_def fle_def split: option.splits)

lemma fle_flt_trans: "fle a b \<Longrightarrow> flt b c \<Longrightarrow> flt a c"
  by (auto simp: flt_def fle_def split: option.splits)

text \<open>The inner loop stops at the end of the run that starts at \<open>j\<close>.\<close>

lemma extend_run_consecutive:
  "j \<le> k \<Longrightarrow> k < extend_run pos_idx j \<Longrightarrow> pos_idx ! (k + 1) = pos_idx ! k + 1"
proof (induction pos_idx j rule: extend_run.induct)
  case (1 pos_idx j)
  show ?case
  proof (cases "j + 1 < length pos_idx \<and> pos_idx ! (j + 1) = pos_idx ! j + 1")
    case True
    then have e: "extend_run pos_idx j = extend_run pos_idx (j + 1)"
      by (simp add: extend_run_step)
    show ?thesis
    proof (cases "k = j")
      case True
      with \<open>j + 1 < length pos_idx \<and> pos_idx ! (j + 1) = pos_idx ! j + 1\<close> show ?thesis by simp
    next
      case False
      with "1.prems" have "j + 1 \<le> k" by simp
      moreover from "1.prems" e have "k < extend_run pos_idx (j + 1)" by simp
      ultimately show ?thesis using "1.IH" True by blast
    qed
  next
    case False
    then have "extend_run pos_idx j = j" by (rule extend_run_stop)
    with "1.prems" show ?thesis by simp
  qed
qed

lemma extend_run_maximal:
  "\<not> (extend_run pos_idx j + 1 < length pos_idx \<and>
      pos_idx ! (extend_run pos_idx j + 1) = pos_idx ! (extend_run pos_idx j) + 1)"
proof (induction pos_idx j rule: extend_run.induct)
  case (1 pos_idx j)
  show ?case
  proof (cases "j + 1 < length pos_idx \<and> pos_idx ! (j + 1) = pos_idx ! j + 1")
    case True
    then have "extend_run pos_idx j = extend_run pos_idx (j + 1)"
      by (simp add: extend_run_step)
    with "1.IH" True show ?thesis by simp
  next
    case False
    then have "extend_run pos_idx j = j" by (rule extend_run_stop)
    with False show ?thesis by simp
  qed
qed

lemma drop_as_map: "drop i xs = map ((!) xs) [i..<length xs]"
proof -
  have "drop i xs = drop i (map ((!) xs) [0..<length xs])" by (simp only: map_nth)
  then show ?thesis by (simp only: drop_map drop_upt add_0)
qed

lemma run_group_drop:
  assumes "i \<le> j" and "j < length pos_idx"
  shows "drop i pos_idx = run_group pos_idx i j @ drop (j + 1) pos_idx"
proof -
  from assms(2) obtain n where n: "length pos_idx = Suc j + n"
    using le_Suc_ex [of "Suc j" "length pos_idx"] by auto
  from assms(1) have "[i..<Suc j + n] = [i..<Suc j] @ [Suc j..<Suc j + n]"
    by (intro upt_add_eq_append) simp
  then have "[i..<length pos_idx] = [i..<Suc j] @ [Suc j..<length pos_idx]"
    by (simp only: n)
  then have "map ((!) pos_idx) [i..<length pos_idx]
             = map ((!) pos_idx) [i..<Suc j] @ map ((!) pos_idx) [Suc j..<length pos_idx]"
    by (simp only: map_append)
  then show ?thesis
    unfolding run_group_def by (simp only: drop_as_map [symmetric] Suc_eq_plus1)
qed

lemma run_group_length: "length (run_group pos_idx i j) = Suc j - i"
  unfolding run_group_def by (simp only: length_map length_upt)

lemma run_group_at:
  "k < Suc j - i \<Longrightarrow> run_group pos_idx i j ! k = pos_idx ! (i + k)"
  unfolding run_group_def by (simp del: upt_Suc)

lemma run_group_hd: "i \<le> j \<Longrightarrow> hd (run_group pos_idx i j) = pos_idx ! i"
  unfolding run_group_def by (simp add: upt_conv_Cons del: upt_Suc)

lemma run_group_last: "i \<le> j \<Longrightarrow> last (run_group pos_idx i j) = pos_idx ! j"
  unfolding run_group_def by simp

lemma consecutive_nth:
  "consecutive xs = (\<forall>k. Suc k < length xs \<longrightarrow> xs ! Suc k = xs ! k + 1)"
proof (induction xs rule: consecutive.induct)
  case 1
  show ?case by simp
next
  case (2 p)
  show ?case by simp
next
  case (3 p q ps)
  show ?case
  proof
    assume a: "consecutive (p # q # ps)"
    with 3 have q: "q = p + 1"
      and r: "\<forall>k. Suc k < length (q # ps) \<longrightarrow> (q # ps) ! Suc k = (q # ps) ! k + 1"
      by simp_all
    show "\<forall>k. Suc k < length (p # q # ps) \<longrightarrow> (p # q # ps) ! Suc k = (p # q # ps) ! k + 1"
    proof (intro allI impI)
      fix k
      assume k: "Suc k < length (p # q # ps)"
      show "(p # q # ps) ! Suc k = (p # q # ps) ! k + 1"
      proof (cases k)
        case 0
        with q show ?thesis by simp
      next
        case (Suc k')
        with k r show ?thesis by simp
      qed
    qed
  next
    assume a: "\<forall>k. Suc k < length (p # q # ps) \<longrightarrow> (p # q # ps) ! Suc k = (p # q # ps) ! k + 1"
    then have "Suc 0 < length (p # q # ps) \<longrightarrow> (p # q # ps) ! Suc 0 = (p # q # ps) ! 0 + 1"
      by blast
    then have q: "q = p + 1" by simp
    have "\<forall>k. Suc k < length (q # ps) \<longrightarrow> (q # ps) ! Suc k = (q # ps) ! k + 1"
    proof (intro allI impI)
      fix k
      assume "Suc k < length (q # ps)"
      then have "Suc (Suc k) < length (p # q # ps)" by simp
      with a have "(p # q # ps) ! Suc (Suc k) = (p # q # ps) ! Suc k + 1" by blast
      then show "(q # ps) ! Suc k = (q # ps) ! k + 1" by simp
    qed
    with 3 q show "consecutive (p # q # ps)" by simp
  qed
qed

lemma run_group_consecutive: "consecutive (run_group pos_idx i (extend_run pos_idx i))"
proof -
  let ?j = "extend_run pos_idx i"
  have "\<forall>k. Suc k < length (run_group pos_idx i ?j) \<longrightarrow>
          run_group pos_idx i ?j ! Suc k = run_group pos_idx i ?j ! k + 1"
  proof (intro allI impI)
    fix k
    assume "Suc k < length (run_group pos_idx i ?j)"
    then have k: "Suc k < Suc ?j - i" by (simp only: run_group_length)
    then have "i \<le> i + k" and "i + k < ?j" by simp_all
    then have "pos_idx ! (i + k + 1) = pos_idx ! (i + k) + 1" by (rule extend_run_consecutive)
    moreover from k have "run_group pos_idx i ?j ! Suc k = pos_idx ! (i + Suc k)"
      by (rule run_group_at)
    moreover from k have "run_group pos_idx i ?j ! k = pos_idx ! (i + k)"
      by (intro run_group_at) simp
    ultimately show "run_group pos_idx i ?j ! Suc k = run_group pos_idx i ?j ! k + 1" by simp
  qed
  then show ?thesis by (simp only: consecutive_nth)
qed

text \<open>
  \<^verbatim>\<open>max\<close> over an ascending group of positions that hold numbers: a position of
  greatest magnitude, and the earliest one.
\<close>

lemma max_abs_from_representative:
  assumes "sorted_wrt (<) (best # ps)"
    and "\<forall>p\<in>set (best # ps). number_at m p"
    and "kbest = fabs (m ! nat best)"
  shows "\<exists>b. max_abs_from m best kbest ps = Inr b \<and> b \<in> set (best # ps) \<and>
           fle kbest (fabs (m ! nat b)) \<and>
           (b \<noteq> best \<longrightarrow> flt kbest (fabs (m ! nat b))) \<and>
           (\<forall>p\<in>set ps. fle (fabs (m ! nat p)) (fabs (m ! nat b))) \<and>
           (\<forall>p\<in>set ps. p < b \<longrightarrow> flt (fabs (m ! nat p)) (fabs (m ! nat b)))"
  using assms
proof (induction ps arbitrary: best kbest)
  case Nil
  then have "kbest \<noteq> None" by (simp add: number_at_def fabs_None)
  with Nil show ?case by (simp add: fle_refl)
next
  case (Cons p ps)
  let ?K = "\<lambda>q. fabs (m ! nat q)"
  from Cons.prems have vp: "valid_pos m p" and np: "?K p \<noteq> None" and nb: "kbest \<noteq> None"
    by (simp_all add: number_at_def fabs_None)
  from vp have ai: "abs_iloc m p = Inr (?K p)" by (rule abs_iloc_valid)
  from Cons.prems have bp: "best < p" by simp
  show ?case
  proof (cases "fgt (?K p) kbest")
    case True
    then have run: "max_abs_from m best kbest (p # ps) = max_abs_from m p (?K p) ps"
      by (simp add: ai)
    from Cons.prems have "sorted_wrt (<) (p # ps)" and "\<forall>q\<in>set (p # ps). number_at m q"
      by simp_all
    from Cons.IH [OF this refl]
    obtain b where b: "max_abs_from m p (?K p) ps = Inr b" "b \<in> set (p # ps)"
      "fle (?K p) (?K b)" "b \<noteq> p \<longrightarrow> flt (?K p) (?K b)"
      "\<forall>q\<in>set ps. fle (?K q) (?K b)" "\<forall>q\<in>set ps. q < b \<longrightarrow> flt (?K q) (?K b)"
      by blast
    from True have lt: "flt kbest (?K p)" by (rule fgt_flt)
    from lt b(3) have s: "flt kbest (?K b)" by (rule flt_fle_trans)
    then have w: "fle kbest (?K b)" by (rule flt_fle)
    from b(3,5) have all: "\<forall>q\<in>set (p # ps). fle (?K q) (?K b)" by simp
    from b(4,6) have early: "\<forall>q\<in>set (p # ps). q < b \<longrightarrow> flt (?K q) (?K b)" by auto
    from run b(1,2) s w all early show ?thesis by auto
  next
    case False
    then have run: "max_abs_from m best kbest (p # ps) = max_abs_from m best kbest ps"
      by (simp add: ai)
    from np nb False have le: "fle (?K p) kbest" by (rule not_fgt_fle)
    from Cons.prems have "sorted_wrt (<) (best # ps)" and "\<forall>q\<in>set (best # ps). number_at m q"
      by auto
    from Cons.IH [OF this Cons.prems(3)]
    obtain b where b: "max_abs_from m best kbest ps = Inr b" "b \<in> set (best # ps)"
      "fle kbest (?K b)" "b \<noteq> best \<longrightarrow> flt kbest (?K b)"
      "\<forall>q\<in>set ps. fle (?K q) (?K b)" "\<forall>q\<in>set ps. q < b \<longrightarrow> flt (?K q) (?K b)"
      by blast
    from le b(3) have pb: "fle (?K p) (?K b)" by (rule fle_trans)
    have pe: "p < b \<longrightarrow> flt (?K p) (?K b)"
    proof
      assume "p < b"
      with bp have "b \<noteq> best" by simp
      with b(4) have "flt kbest (?K b)" by simp
      with le show "flt (?K p) (?K b)" by (rule fle_flt_trans)
    qed
    from pb b(5) have all: "\<forall>q\<in>set (p # ps). fle (?K q) (?K b)" by simp
    from pe b(6) have early: "\<forall>q\<in>set (p # ps). q < b \<longrightarrow> flt (?K q) (?K b)" by simp
    from run b(1,2,3,4) all early show ?thesis by auto
  qed
qed

lemma max_abs_representative:
  assumes "g \<noteq> []" and "sorted_wrt (<) g" and "\<forall>p\<in>set g. number_at m p"
  shows "\<exists>b. max_abs m g = Inr b \<and> is_representative m g b"
proof -
  from assms(1) obtain p ps where g: "g = p # ps" by (cases g) auto
  let ?K = "\<lambda>q. fabs (m ! nat q)"
  from assms(3) g have vp: "valid_pos m p" and np: "?K p \<noteq> None"
    by (simp_all add: number_at_def fabs_None)
  from vp have ai: "abs_iloc m p = Inr (?K p)" by (rule abs_iloc_valid)
  from max_abs_from_representative [OF assms(2,3) [unfolded g] refl]
  obtain b where b: "max_abs_from m p (?K p) ps = Inr b" "b \<in> set (p # ps)"
      "fle (?K p) (?K b)" "b \<noteq> p \<longrightarrow> flt (?K p) (?K b)"
      "\<forall>q\<in>set ps. fle (?K q) (?K b)" "\<forall>q\<in>set ps. q < b \<longrightarrow> flt (?K q) (?K b)"
    by blast
  have run: "max_abs m g = Inr b" by (simp add: max_abs_def g ai b(1))
  from b(3,5) have all: "\<forall>q\<in>set (p # ps). fle (?K q) (?K b)" by simp
  from b(4,6) have early: "\<forall>q\<in>set (p # ps). q < b \<longrightarrow> flt (?K q) (?K b)" by auto
  from b(2) all early have "is_representative m g b"
    unfolding is_representative_def g list_all_iff by blast
  with run show ?thesis by blast
qed

lemma sorted_run_group:
  assumes "sorted_wrt (<) pos_idx" and "i \<le> j" and "j < length pos_idx"
  shows "sorted_wrt (<) (run_group pos_idx i j)"
proof -
  from assms(1) have "sorted_wrt (<) (drop i pos_idx)" by (rule sorted_wrt_drop)
  then show ?thesis
    unfolding run_group_drop [OF assms(2,3)] by (simp add: sorted_wrt_append)
qed

text \<open>The outer loop, from index \<open>i\<close>: the runs of the rest of the list and their representatives.\<close>

lemma compress_from_runs:
  assumes "sorted_wrt (<) pos_idx" and "\<forall>p\<in>set pos_idx. number_at m p"
  shows "\<exists>groups bs. compress_from m pos_idx i keep = Inr (keep @ bs) \<and>
           concat groups = drop i pos_idx \<and>
           list_all (\<lambda>g. g \<noteq> [] \<and> consecutive g) groups \<and> separated groups \<and>
           list_all2 (is_representative m) groups bs \<and>
           (i < length pos_idx \<longrightarrow> groups \<noteq> [] \<and> hd (hd groups) = pos_idx ! i)"
  using assms
proof (induction m pos_idx i keep rule: compress_from.induct)
  case (1 m pos_idx i keep)
  show ?case
  proof (cases "i < length pos_idx")
    case False
    then have "compress_from m pos_idx i keep = Inr (keep @ [])"
      by (simp add: compress_from_done)
    moreover from False have "concat [] = drop i pos_idx" by simp
    ultimately show ?thesis using False
      by (intro exI [of _ "[]"]) simp
  next
    case True
    let ?j = "extend_run pos_idx i"
    let ?g = "run_group pos_idx i ?j"
    have ij: "i \<le> ?j" by (rule extend_run_ge)
    have jl: "?j < length pos_idx" using True by (rule extend_run_lt)
    from ij have gne: "?g \<noteq> []"
      using run_group_length [of pos_idx i ?j] by (metis Suc_diff_le length_0_conv nat.distinct(1))
    have gs: "sorted_wrt (<) ?g" using "1.prems"(1) ij jl by (rule sorted_run_group)
    have gsub: "set ?g \<subseteq> set pos_idx" using True by (rule group_subset)
    with "1.prems"(2) have gn: "\<forall>p\<in>set ?g. number_at m p" by blast
    from max_abs_representative [OF gne gs gn]
    obtain b where b: "max_abs m ?g = Inr b" and rep: "is_representative m ?g b" by blast
    from "1.IH" [OF True b "1.prems"]
    obtain groups bs where
      rec: "compress_from m pos_idx (?j + 1) (keep @ [b]) = Inr ((keep @ [b]) @ bs)"
      and cc: "concat groups = drop (?j + 1) pos_idx"
      and runs: "list_all (\<lambda>g. g \<noteq> [] \<and> consecutive g) groups"
      and sep: "separated groups"
      and reps: "list_all2 (is_representative m) groups bs"
      and first: "?j + 1 < length pos_idx \<longrightarrow> groups \<noteq> [] \<and> hd (hd groups) = pos_idx ! (?j + 1)"
      by blast
    have run: "compress_from m pos_idx i keep = Inr (keep @ (b # bs))"
      using rec by (simp add: compress_from_unfold [OF True] b)
    have cc': "concat (?g # groups) = drop i pos_idx"
      using cc run_group_drop [OF ij jl] by simp
    have runs': "list_all (\<lambda>g. g \<noteq> [] \<and> consecutive g) (?g # groups)"
      using runs gne run_group_consecutive [of pos_idx i] by simp
    have sep': "separated (?g # groups)"
    proof (cases groups)
      case Nil
      then show ?thesis by simp
    next
      case (Cons h gs)
      with runs have "h \<noteq> []" by simp
      with cc Cons have "drop (?j + 1) pos_idx \<noteq> []" by auto
      then have l: "?j + 1 < length pos_idx" by simp
      with first Cons have "hd h = pos_idx ! (?j + 1)" by simp
      moreover from l extend_run_maximal [of pos_idx i]
      have "pos_idx ! (?j + 1) \<noteq> pos_idx ! ?j + 1" by blast
      moreover have "last ?g = pos_idx ! ?j" using ij by (rule run_group_last)
      ultimately have "hd h \<noteq> last ?g + 1" by simp
      with sep Cons show ?thesis by simp
    qed
    have reps': "list_all2 (is_representative m) (?g # groups) (b # bs)"
      using rep reps by simp
    have first': "i < length pos_idx \<longrightarrow> ?g # groups \<noteq> [] \<and> hd (hd (?g # groups)) = pos_idx ! i"
      using run_group_hd [OF ij] by simp
    from run cc' runs' sep' reps' first' show ?thesis by blast
  qed
qed

definition run_m :: series where
  "run_m = [Some 1, Some 3, Some (- 5), Some 2, Some 0, Some 4, Some (- 4)]"

lemma run_m_compress: "compress_consecutive_by_max_abs run_m [5, 2, 1, 3, 6] = Inr [2, 5]"
  by (simp add: compress_consecutive_by_max_abs_def compress_from_unfold compress_from_done
      extend_run.simps run_group_def max_abs_def abs_iloc_def norm_index_def run_m_def fabs_def
      fgt_def upt_rec)

text \<open>
  Claim C5. For distinct candidate positions that hold numbers, the compression
  returns one position for each maximal run of consecutive integers of the sorted
  positions: the sorted list is the concatenation of non-empty runs of consecutive
  integers, no run continues into the next one, and the kept position of a run is in
  the run, no position of the run has a greater magnitude, and every earlier position
  of the run has a smaller one.
\<close>

theorem compress_keeps_run_maxima:
  assumes "distinct pos_idx" and "\<forall>p\<in>set pos_idx. number_at m p"
  shows "\<exists>groups keep. compress_consecutive_by_max_abs m pos_idx = Inr keep \<and>
           concat groups = sort pos_idx \<and>
           list_all (\<lambda>g. g \<noteq> [] \<and> consecutive g) groups \<and> separated groups \<and>
           list_all2 (is_representative m) groups keep"
proof (cases "pos_idx = []")
  case True
  then have "compress_consecutive_by_max_abs m pos_idx = Inr []"
    by (simp add: compress_consecutive_by_max_abs_def)
  with True show ?thesis by (intro exI [of _ "[]"]) simp
next
  case False
  from assms(1) have s: "sorted_wrt (<) (sort pos_idx)"
    by (simp add: strict_sorted_iff)
  from assms(2) have n: "\<forall>p\<in>set (sort pos_idx). number_at m p" by simp
  from compress_from_runs [OF s n, of 0 "[]"]
  obtain groups bs where "compress_from m (sort pos_idx) 0 [] = Inr ([] @ bs)"
    and "concat groups = drop 0 (sort pos_idx)"
    and "list_all (\<lambda>g. g \<noteq> [] \<and> consecutive g) groups" and "separated groups"
    and "list_all2 (is_representative m) groups bs"
    by blast
  with False show ?thesis
    by (intro exI [of _ groups] exI [of _ bs]) (simp add: compress_consecutive_by_max_abs_def)
qed

theorem compress_keeps_run_maxima_witness:
  "compress_consecutive_by_max_abs run_m [5, 2, 1, 3, 6] = Inr [2, 5] \<and>
   (\<exists>groups. concat groups = [1, 2, 3, 5, 6] \<and> separated groups \<and>
      list_all2 (is_representative run_m) groups [2, 5])"
proof -
  have d: "distinct [5, 2, 1, 3, 6 :: int]" by simp
  have n: "\<forall>p\<in>set [5, 2, 1, 3, 6]. number_at run_m p"
    by (simp add: number_at_def valid_pos_def run_m_def)
  from compress_keeps_run_maxima [OF d n]
  obtain groups keep where k: "compress_consecutive_by_max_abs run_m [5, 2, 1, 3, 6] = Inr keep"
    and c: "concat groups = sort [5, 2, 1, 3, 6]" and s: "separated groups"
    and r: "list_all2 (is_representative run_m) groups keep"
    by blast
  from k have "keep = [2, 5]" by (simp add: run_m_compress)
  moreover have "sort [5, 2, 1, 3, 6 :: int] = [1, 2, 3, 5, 6]" by simp
  ultimately show ?thesis using c s r run_m_compress by auto
qed

end
